theory Spec2Isabelle
  imports
    Complex_Main
    "HOL-Library.Multiset"
    "HOL-Library.Product_Lexorder"
    "HOL-Library.Monad_Syntax"
begin

section \<open>Data model\<close>

text \<open>
  The class \<^verbatim>\<open>Shop\<close> (a dataclass in \<^verbatim>\<open>view_mall.py\<close>, a plain class with the same four
  attributes in \<^verbatim>\<open>calculate_walking_time_between_2_shops.py\<close>) is a record. The
  attributes \<^verbatim>\<open>name\<close>, \<^verbatim>\<open>floor\<close>, \<^verbatim>\<open>x\<close>, \<^verbatim>\<open>y\<close> carry the prefix \<open>shop_\<close>, since \<open>floor\<close> is
  a constant of HOL and \<open>x\<close>, \<open>y\<close> are wanted as variables.

  Python's \<^verbatim>\<open>float\<close> is read as a real number: sums, differences, products and
  \<^verbatim>\<open>math.hypot\<close> are the exact operations, without rounding, overflow or NaN. What is
  proved below about the order of two computed totals (the cost conjunct of
  \<open>two_opt_total\<close>) is therefore a fact of exact arithmetic, not of doubles. The claims
  proved are about the length, the entries and the ends of a tour, the cost of one step,
  two concrete malls with small integer coordinates, and the lookup by name.

  A tour (\<^verbatim>\<open>List[int]\<close>) is a list of integers, each used as a subscript of the list of
  shops.
\<close>

record shop =
  shop_name :: string
  shop_floor :: int
  shop_x :: real
  shop_y :: real

section \<open>Distance model\<close>

text \<open>\<^verbatim>\<open>math.hypot(dx, dy)\<close>: the Euclidean norm of \<open>(dx, dy)\<close>.\<close>

definition hypot :: "real \<Rightarrow> real \<Rightarrow> real" where
  "hypot dx dy = sqrt (dx\<^sup>2 + dy\<^sup>2)"

definition step_cost :: "shop \<Rightarrow> shop \<Rightarrow> real \<Rightarrow> real" where
  "step_cost a b floor_penalty =
     (let dx = shop_x a - shop_x b;
          dy = shop_y a - shop_y b;
          horizontal = hypot dx dy;
          vertical_penalty = floor_penalty * real_of_int \<bar>shop_floor a - shop_floor b\<bar>
      in horizontal + vertical_penalty)"

section \<open>Python lists, sets and loops\<close>

text \<open>
  The routing functions raise no exception of their own; a subscript out of range
  (\<^verbatim>\<open>IndexError\<close>), \<^verbatim>\<open>min\<close> of an empty iterable (\<^verbatim>\<open>ValueError\<close>) and the removal of an
  absent element from a set (\<^verbatim>\<open>KeyError\<close>) would. A result is an option, \<open>None\<close> where
  Python raises.

  \<^verbatim>\<open>xs[k]\<close> for an integer \<open>k\<close>: a negative \<open>k\<close> counts from the end of the list, and \<open>k\<close>
  is in range when \<open>-len(xs) \<le> k < len(xs)\<close>. The position that \<open>k\<close> denotes in a list of
  length \<open>n\<close> is \<open>py_pos n k\<close>.
\<close>

definition py_pos :: "nat \<Rightarrow> int \<Rightarrow> nat" where
  "py_pos n k = nat (if k < 0 then k + int n else k)"

definition py_index :: "'a list \<Rightarrow> int \<Rightarrow> 'a option" where
  "py_index xs k =
     (if - int (length xs) \<le> k \<and> k < int (length xs)
      then Some (xs ! py_pos (length xs) k) else None)"

text \<open>\<^verbatim>\<open>xs[k]\<close> for a loop counter \<open>k\<close>, which is never negative.\<close>

definition list_at :: "'a list \<Rightarrow> nat \<Rightarrow> 'a option" where
  "list_at xs k = (if k < length xs then Some (xs ! k) else None)"

text \<open>\<^verbatim>\<open>range(n)\<close>, as the list of the integers it yields.\<close>

definition py_range :: "nat \<Rightarrow> int list" where
  "py_range n = map int [0..<n]"

text \<open>
  A \<^verbatim>\<open>for\<close> loop over a range whose body updates a state and may raise: the body runs
  for each value in turn, and the first exception ends the loop.
\<close>

fun for_loop :: "'i list \<Rightarrow> ('i \<Rightarrow> 's \<Rightarrow> 's option) \<Rightarrow> 's \<Rightarrow> 's option" where
  "for_loop [] body s = Some s"
| "for_loop (k # ks) body s =
     (case body k s of None \<Rightarrow> None | Some s' \<Rightarrow> for_loop ks body s')"

text \<open>
  \<^verbatim>\<open>min(iterable, key=f)\<close>: the first item whose key is minimal. The key of the first
  item is taken, then each later item replaces the best one when its key is strictly
  smaller. On an empty iterable \<^verbatim>\<open>min\<close> raises.
\<close>

fun py_min_from :: "('a \<Rightarrow> 'k::linorder option) \<Rightarrow> 'a \<Rightarrow> 'k \<Rightarrow> 'a list \<Rightarrow> 'a option" where
  "py_min_from key best best_key [] = Some best"
| "py_min_from key best best_key (v # vs) =
     (case key v of
        None \<Rightarrow> None
      | Some k \<Rightarrow> if k < best_key then py_min_from key v k vs
                  else py_min_from key best best_key vs)"

definition py_min :: "('a \<Rightarrow> 'k::linorder option) \<Rightarrow> 'a list \<Rightarrow> 'a option" where
  "py_min key xs =
     (case xs of
        [] \<Rightarrow> None
      | v # vs \<Rightarrow> (case key v of None \<Rightarrow> None | Some k \<Rightarrow> py_min_from key v k vs))"

text \<open>
  A set of integers is the list of its elements in the order in which CPython iterates
  over it. \<^verbatim>\<open>set(range(n))\<close> holds small non-negative integers, each hashed to itself, so
  the iteration is ascending; \<^verbatim>\<open>s.remove(x)\<close> keeps the other elements in place, and raises
  when \<open>x\<close> is absent.
\<close>

definition set_remove :: "int \<Rightarrow> int list \<Rightarrow> int list option" where
  "set_remove x s = (if x \<in> set s then Some (remove1 x s) else None)"

text \<open>
  The slice assignment \<^verbatim>\<open>xs[lo:hi] = reversed(xs[lo:hi])\<close>, as a new list. The slice
  \<^verbatim>\<open>xs[lo:hi]\<close> is clipped to the list, and is the empty slice at \<open>lo\<close> when \<open>hi < lo\<close>.
\<close>

definition reverse_slice :: "'a list \<Rightarrow> nat \<Rightarrow> nat \<Rightarrow> 'a list" where
  "reverse_slice xs lo hi =
     take lo xs @ rev (take (hi - lo) (drop lo xs)) @ drop (max lo hi) xs"

section \<open>Tour length\<close>

text \<open>
  \<^verbatim>\<open>sum(step_cost(shops[order[i]], shops[order[i + 1]], floor_penalty)
      for i in range(len(order) - 1))\<close>:
  the sum starts at 0 and adds the steps from left to right. For the empty order the
  range is \<^verbatim>\<open>range(-1)\<close>, which is empty, as \<open>[0..<0 - 1]\<close> is.
\<close>

definition path_length :: "int list \<Rightarrow> shop list \<Rightarrow> real \<Rightarrow> real option" where
  "path_length order shops floor_penalty =
     for_loop [0..<length order - 1]
       (\<lambda>i acc. do {
          oi \<leftarrow> list_at order i;
          a \<leftarrow> py_index shops oi;
          oj \<leftarrow> list_at order (i + 1);
          b \<leftarrow> py_index shops oj;
          Some (acc + step_cost a b floor_penalty)
        }) 0"

section \<open>Nearest-neighbour construction\<close>

text \<open>
  The key of the start: \<^verbatim>\<open>(shops[i].floor, shops[i].x, shops[i].y)\<close>. Python compares
  tuples lexicographically, as the order on products does here.
\<close>

definition start_key :: "shop \<Rightarrow> int \<times> real \<times> real" where
  "start_key s = (shop_floor s, shop_x s, shop_y s)"

definition start_key_at :: "shop list \<Rightarrow> int \<Rightarrow> (int \<times> real \<times> real) option" where
  "start_key_at shops i = do {
     a \<leftarrow> py_index shops i;
     b \<leftarrow> py_index shops i;
     c \<leftarrow> py_index shops i;
     Some (shop_floor a, shop_x b, shop_y c)
   }"

text \<open>The key of a candidate: \<^verbatim>\<open>step_cost(shops[current], shops[j], floor_penalty)\<close>.\<close>

definition next_key :: "shop list \<Rightarrow> real \<Rightarrow> int \<Rightarrow> int \<Rightarrow> real option" where
  "next_key shops floor_penalty current j = do {
     a \<leftarrow> py_index shops current;
     b \<leftarrow> py_index shops j;
     Some (step_cost a b floor_penalty)
   }"

text \<open>The \<^verbatim>\<open>while unvisited\<close> loop, on the state \<open>(current, unvisited, order)\<close>.\<close>

function nn_loop :: "shop list \<Rightarrow> real \<Rightarrow> int \<Rightarrow> int list \<Rightarrow> int list \<Rightarrow> int list option" where
  "nn_loop shops floor_penalty current unvisited order =
     (if unvisited = [] then Some order
      else do {
        next_idx \<leftarrow> py_min (next_key shops floor_penalty current) unvisited;
        unvisited' \<leftarrow> set_remove next_idx unvisited;
        nn_loop shops floor_penalty next_idx unvisited' (order @ [next_idx])
      })"
  by pat_completeness auto
termination
proof (relation "measure (\<lambda>(shops, floor_penalty, current, unvisited, order). length unvisited)")
  show "wf (measure (\<lambda>(shops, floor_penalty, current, unvisited, order). length unvisited))"
    by simp
next
  fix shops :: "shop list" and floor_penalty :: real and current next_idx :: int
    and unvisited unvisited' order :: "int list"
  assume "set_remove next_idx unvisited = Some unvisited'"
  then have mem: "next_idx \<in> set unvisited" and eq: "unvisited' = remove1 next_idx unvisited"
    by (auto simp: set_remove_def split: if_splits)
  from mem have pos: "0 < length unvisited" by (rule length_pos_if_in_set)
  from mem have "length (remove1 next_idx unvisited) = length unvisited - 1"
    by (simp only: length_remove1 if_True)
  with pos eq have "length unvisited' < length unvisited"
    by simp
  then show "((shops, floor_penalty, next_idx, unvisited', order @ [next_idx]),
              (shops, floor_penalty, current, unvisited, order))
             \<in> measure (\<lambda>(shops, floor_penalty, current, unvisited, order). length unvisited)"
    by simp
qed

definition nearest_neighbor :: "shop list \<Rightarrow> real \<Rightarrow> int list option" where
  "nearest_neighbor shops floor_penalty =
     (let n = length shops in
      if n = 0 then Some []
      else do {
        start \<leftarrow> py_min (start_key_at shops) (py_range n);
        unvisited \<leftarrow> set_remove start (py_range n);
        nn_loop shops floor_penalty start unvisited [start]
      })"

section \<open>2-opt refinement\<close>

definition seg_cost ::
  "int list \<Rightarrow> shop list \<Rightarrow> real \<Rightarrow> nat \<Rightarrow> nat \<Rightarrow> nat \<Rightarrow> nat \<Rightarrow> real option" where
  "seg_cost order shops floor_penalty i1 i2 j1 j2 = do {
     o1 \<leftarrow> list_at order i1;
     a \<leftarrow> py_index shops o1;
     o2 \<leftarrow> list_at order i2;
     b \<leftarrow> py_index shops o2;
     o3 \<leftarrow> list_at order j1;
     c \<leftarrow> py_index shops o3;
     o4 \<leftarrow> list_at order j2;
     d \<leftarrow> py_index shops o4;
     Some (step_cost a b floor_penalty + step_cost c d floor_penalty)
   }"

text \<open>
  The body of the inner loop, on the state \<open>(order, improved)\<close>: the list \<^verbatim>\<open>order\<close> is
  mutated in place in the source and passed along here.
\<close>

definition two_opt_step ::
  "shop list \<Rightarrow> real \<Rightarrow> nat \<Rightarrow> nat \<Rightarrow> int list \<times> bool \<Rightarrow> (int list \<times> bool) option" where
  "two_opt_step shops floor_penalty i j st =
     (case st of (order, improved) \<Rightarrow> do {
        before \<leftarrow> seg_cost order shops floor_penalty i (i + 1) j (j + 1);
        after \<leftarrow> seg_cost order shops floor_penalty i j (i + 1) (j + 1);
        if after + 1 / 10 ^ 9 < before
        then Some (reverse_slice order (i + 1) (j + 1), True)
        else Some (order, improved)
      })"

text \<open>One pass: \<^verbatim>\<open>improved = False\<close>, then the two nested \<^verbatim>\<open>for\<close> loops.\<close>

definition two_opt_pass ::
  "shop list \<Rightarrow> real \<Rightarrow> nat \<Rightarrow> int list \<Rightarrow> (int list \<times> bool) option" where
  "two_opt_pass shops floor_penalty n order =
     for_loop [0..<n - 3]
       (\<lambda>i. for_loop [i + 2..<n - 1] (two_opt_step shops floor_penalty i))
       (order, False)"

text \<open>
  The \<^verbatim>\<open>while improved and passes < max_passes\<close> loop, from the state
  \<open>(order, improved, passes)\<close> to the state at the exit of the loop.
\<close>

function two_opt_while ::
  "shop list \<Rightarrow> real \<Rightarrow> int \<Rightarrow> nat \<Rightarrow> int list \<times> bool \<times> int \<Rightarrow> (int list \<times> bool \<times> int) option" where
  "two_opt_while shops floor_penalty max_passes n (order, improved, passes) =
     (if improved \<and> passes < max_passes
      then (case two_opt_pass shops floor_penalty n order of
              None \<Rightarrow> None
            | Some (order', improved') \<Rightarrow>
                two_opt_while shops floor_penalty max_passes n (order', improved', passes + 1))
      else Some (order, improved, passes))"
  by pat_completeness auto
termination
  by (relation "measure (\<lambda>(shops, floor_penalty, max_passes, n, order, improved, passes).
                  nat (max_passes - passes))") auto

definition two_opt :: "int list \<Rightarrow> shop list \<Rightarrow> real \<Rightarrow> int \<Rightarrow> int list option" where
  "two_opt order shops floor_penalty max_passes =
     (let n = length order in
      if n < 4 then Some order
      else map_option fst (two_opt_while shops floor_penalty max_passes n (order, True, 0)))"

section \<open>Entry point\<close>

text \<open>\<^verbatim>\<open>two_opt\<close> is called with its default \<^verbatim>\<open>max_passes = 20\<close>.\<close>

definition compute_efficient_path :: "shop list \<Rightarrow> real \<Rightarrow> (int list \<times> real) option" where
  "compute_efficient_path shops floor_penalty = do {
     init \<leftarrow> nearest_neighbor shops floor_penalty;
     improved \<leftarrow> two_opt init shops floor_penalty 20;
     total \<leftarrow> path_length improved shops floor_penalty;
     Some (improved, total)
   }"

section \<open>Lookup by name and walking time\<close>

text \<open>
  \<^verbatim>\<open>Mall.get_shop_coordinates\<close> and \<^verbatim>\<open>Mall.calculate_walking_time\<close>, on the list
  \<^verbatim>\<open>self.shops\<close>. The first returns Python's \<^verbatim>\<open>None\<close> when no shop has the name; the
  second then returns the string \<^verbatim>\<open>"Shop not found."\<close> in place of a number.
\<close>

fun get_shop_coordinates :: "shop list \<Rightarrow> string \<Rightarrow> (real \<times> real \<times> int) option" where
  "get_shop_coordinates [] nm = None"
| "get_shop_coordinates (s # rest) nm =
     (if shop_name s = nm then Some (shop_x s, shop_y s, shop_floor s)
      else get_shop_coordinates rest nm)"

definition calculate_walking_time :: "shop list \<Rightarrow> string \<Rightarrow> string \<Rightarrow> string + real" where
  "calculate_walking_time shops shop1_name shop2_name =
     (case (get_shop_coordinates shops shop1_name, get_shop_coordinates shops shop2_name) of
        (Some (x1, y1, f1), Some (x2, y2, f2)) \<Rightarrow>
          if f1 \<noteq> f2
          then (let elevator_time = 30 in Inr (\<bar>x1 - x2\<bar> + \<bar>y1 - y2\<bar> + elevator_time))
          else Inr (\<bar>x1 - x2\<bar> + \<bar>y1 - y2\<bar>)
      | _ \<Rightarrow> Inl ''Shop not found.'')"

section \<open>Notions used in the statements\<close>

text \<open>
  An order is valid for a list of shops when each of its entries is in range as a
  subscript of the list of shops.
\<close>

definition valid_order :: "int list \<Rightarrow> shop list \<Rightarrow> bool" where
  "valid_order order shops =
     list_all (\<lambda>k. - int (length shops) \<le> k \<and> k < int (length shops)) order"

text \<open>The cost of the step between the shops at two indices, and the sum along a tour.\<close>

definition idx_cost :: "shop list \<Rightarrow> real \<Rightarrow> int \<Rightarrow> int \<Rightarrow> real" where
  "idx_cost shops floor_penalty a b =
     step_cost (shops ! py_pos (length shops) a) (shops ! py_pos (length shops) b) floor_penalty"

fun tour_cost :: "('a \<Rightarrow> 'a \<Rightarrow> real) \<Rightarrow> 'a list \<Rightarrow> real" where
  "tour_cost c (a # b # rest) = c a b + tour_cost c (b # rest)"
| "tour_cost c [a] = 0"
| "tour_cost c [] = 0"

text \<open>
  Two orders with the same length, the same entries counted with multiplicity, and the
  same first and last entry.
\<close>

definition same_ends :: "'a list \<Rightarrow> 'a list \<Rightarrow> bool" where
  "same_ends order order' \<longleftrightarrow>
     length order' = length order \<and> mset order' = mset order \<and>
     order' ! 0 = order ! 0 \<and> order' ! (length order - 1) = order ! (length order - 1)"

text \<open>
  The invariant of a pass that started from \<open>order0\<close>, on the state \<open>(order, improved)\<close>
  of its loops.
\<close>

definition pass_inv :: "shop list \<Rightarrow> real \<Rightarrow> int list \<Rightarrow> int list \<times> bool \<Rightarrow> bool" where
  "pass_inv shops floor_penalty order0 st \<longleftrightarrow>
     valid_order (fst st) shops \<and> same_ends order0 (fst st) \<and>
     tour_cost (idx_cost shops floor_penalty) (fst st)
       \<le> tour_cost (idx_cost shops floor_penalty) order0 \<and>
     (if snd st
      then tour_cost (idx_cost shops floor_penalty) (fst st)
             < tour_cost (idx_cost shops floor_penalty) order0
      else fst st = order0)"

text \<open>
  A run of \<^verbatim>\<open>two_opt\<close> has converged when it did not enter the loop (fewer than four
  entries) or left it with \<^verbatim>\<open>improved\<close> false: the last pass reversed nothing.
\<close>

definition two_opt_converged :: "int list \<Rightarrow> shop list \<Rightarrow> real \<Rightarrow> int \<Rightarrow> bool" where
  "two_opt_converged order shops floor_penalty max_passes =
     (length order < 4 \<or>
      (case two_opt_while shops floor_penalty max_passes (length order) (order, True, 0) of
         Some (order', improved, passes) \<Rightarrow> \<not> improved
       | None \<Rightarrow> False))"

section \<open>Concrete malls\<close>

text \<open>
  Four shops on one floor \<open>f\<close>, at the corners of a square of side 10, stored in the order
  A, B, C, D.
\<close>

definition square_mall :: "int \<Rightarrow> shop list" where
  "square_mall f =
     [\<lparr>shop_name = ''A'', shop_floor = f, shop_x = 0, shop_y = 0\<rparr>,
      \<lparr>shop_name = ''B'', shop_floor = f, shop_x = 10, shop_y = 0\<rparr>,
      \<lparr>shop_name = ''C'', shop_floor = f, shop_x = 10, shop_y = 10\<rparr>,
      \<lparr>shop_name = ''D'', shop_floor = f, shop_x = 0, shop_y = 10\<rparr>]"

text \<open>
  Five shops on a line (\<open>y = 0\<close>) over three floors, and three shops of which two share
  a name.
\<close>

definition line_mall :: "shop list" where
  "line_mall =
     [\<lparr>shop_name = ''Shop_1_1'', shop_floor = 1, shop_x = 5, shop_y = 0\<rparr>,
      \<lparr>shop_name = ''Shop_0_1'', shop_floor = 0, shop_x = 6, shop_y = 0\<rparr>,
      \<lparr>shop_name = ''Shop_1_2'', shop_floor = 1, shop_x = 1, shop_y = 0\<rparr>,
      \<lparr>shop_name = ''Shop_0_2'', shop_floor = 0, shop_x = 2, shop_y = 0\<rparr>,
      \<lparr>shop_name = ''Shop_2_1'', shop_floor = 2, shop_x = 7, shop_y = 0\<rparr>]"

definition shop_A1 :: shop where
  "shop_A1 = \<lparr>shop_name = ''A'', shop_floor = 0, shop_x = 1, shop_y = 2\<rparr>"

definition shop_B :: shop where
  "shop_B = \<lparr>shop_name = ''B'', shop_floor = 1, shop_x = 3, shop_y = 4\<rparr>"

definition shop_A2 :: shop where
  "shop_A2 = \<lparr>shop_name = ''A'', shop_floor = 2, shop_x = 9, shop_y = 9\<rparr>"

definition dup_mall :: "shop list" where
  "dup_mall = [shop_A1, shop_B, shop_A2]"

declare nn_loop.simps [simp del]

declare two_opt_while.simps [simp del]

section \<open>Properties of the distance model\<close>

lemma hypot_nonneg: "0 \<le> hypot dx dy"
  by (simp add: hypot_def)

lemma hypot_eq_0_iff: "hypot dx dy = 0 \<longleftrightarrow> dx = 0 \<and> dy = 0"
  by (simp add: hypot_def)

lemma hypot_minus: "hypot (- dx) (- dy) = hypot dx dy"
  by (simp add: hypot_def)

lemma step_cost_commute: "step_cost a b p = step_cost b a p"
proof -
  have "hypot (shop_x a - shop_x b) (shop_y a - shop_y b)
      = hypot (- (shop_x b - shop_x a)) (- (shop_y b - shop_y a))"
    by simp
  also have "\<dots> = hypot (shop_x b - shop_x a) (shop_y b - shop_y a)"
    by (rule hypot_minus)
  finally show ?thesis
    by (simp add: step_cost_def Let_def abs_minus_commute)
qed

section \<open>Subscripts and ranges\<close>

lemma list_at_Some: "k < length xs \<Longrightarrow> list_at xs k = Some (xs ! k)"
  by (simp add: list_at_def)

lemma list_at_eq_Some: "list_at xs k = Some v \<longleftrightarrow> k < length xs \<and> v = xs ! k"
  by (auto simp: list_at_def)

lemma py_index_Some:
  "- int (length xs) \<le> k \<Longrightarrow> k < int (length xs) \<Longrightarrow>
   py_index xs k = Some (xs ! py_pos (length xs) k)"
  by (simp add: py_index_def)

lemma set_py_range: "set (py_range n) = {0..<int n}"
  by (simp add: py_range_def image_int_atLeastLessThan)

lemma in_py_range: "k \<in> set (py_range n) \<longleftrightarrow> 0 \<le> k \<and> k < int n"
  by (simp add: set_py_range)

lemma length_py_range: "length (py_range n) = n"
  by (simp add: py_range_def)

lemma distinct_py_range: "distinct (py_range n)"
  by (simp add: py_range_def distinct_map)

lemma py_range_nonempty: "0 < n \<Longrightarrow> py_range n \<noteq> []"
  by (simp add: py_range_def)

lemma perm_of_range:
  assumes "mset xs = mset (py_range n)"
  shows "length xs = n" "distinct xs" "set xs = {0..<int n}"
proof -
  show "length xs = n" using mset_eq_length[OF assms] by (simp add: length_py_range)
  show "distinct xs" using mset_eq_imp_distinct_iff[OF assms] by (simp add: distinct_py_range)
  show "set xs = {0..<int n}" using mset_eq_setD[OF assms] by (simp add: set_py_range)
qed

section \<open>The choice of the minimum\<close>

lemma py_min_from_Some:
  "\<forall>v\<in>set vs. key v \<noteq> None \<Longrightarrow>
   \<exists>r. py_min_from key best bk vs = Some r \<and> r \<in> set (best # vs)"
proof (induction vs arbitrary: best bk)
  case Nil
  then show ?case by simp
next
  case (Cons w ws)
  then obtain k where k: "key w = Some k" by auto
  from Cons.prems have rest: "\<forall>v\<in>set ws. key v \<noteq> None" by simp
  show ?case
  proof (cases "k < bk")
    case True
    from Cons.IH[OF rest, of w k] True k show ?thesis by auto
  next
    case False
    from Cons.IH[OF rest, of best bk] False k show ?thesis by auto
  qed
qed

lemma py_min_from_least:
  "key best = Some bk \<Longrightarrow> py_min_from key best bk vs = Some r \<Longrightarrow>
   \<exists>kr. key r = Some kr \<and> kr \<le> bk \<and> (\<forall>v\<in>set vs. \<forall>kv. key v = Some kv \<longrightarrow> kr \<le> kv)"
proof (induction vs arbitrary: best bk)
  case Nil
  then show ?case by simp
next
  case (Cons w ws)
  from Cons.prems(2) obtain k where k: "key w = Some k" by (auto split: option.splits)
  show ?case
  proof (cases "k < bk")
    case True
    with Cons.prems(2) k have "py_min_from key w k ws = Some r" by simp
    from Cons.IH[OF k this] obtain kr where kr: "key r = Some kr" "kr \<le> k"
      "\<forall>v\<in>set ws. \<forall>kv. key v = Some kv \<longrightarrow> kr \<le> kv" by blast
    from kr(2) True have "kr \<le> bk" by order
    with kr k show ?thesis by auto
  next
    case False
    with Cons.prems(2) k have "py_min_from key best bk ws = Some r" by simp
    from Cons.IH[OF Cons.prems(1) this] obtain kr where kr: "key r = Some kr" "kr \<le> bk"
      "\<forall>v\<in>set ws. \<forall>kv. key v = Some kv \<longrightarrow> kr \<le> kv" by blast
    from kr(2) False have "kr \<le> k" by order
    with kr k show ?thesis by auto
  qed
qed

lemma py_min_Some:
  assumes "xs \<noteq> []" "\<forall>v\<in>set xs. key v \<noteq> None"
  shows "\<exists>r. py_min key xs = Some r \<and> r \<in> set xs"
proof -
  from assms(1) obtain v vs where xs: "xs = v # vs" by (cases xs) auto
  with assms(2) obtain k where k: "key v = Some k" by auto
  from assms(2) xs have "\<forall>u\<in>set vs. key u \<noteq> None" by simp
  from py_min_from_Some[OF this, of v k] xs k show ?thesis
    by (simp add: py_min_def)
qed

lemma py_min_least:
  assumes "py_min key xs = Some r"
  shows "\<exists>kr. key r = Some kr \<and> (\<forall>v\<in>set xs. \<forall>kv. key v = Some kv \<longrightarrow> kr \<le> kv)"
proof -
  from assms obtain v vs k where xs: "xs = v # vs" and k: "key v = Some k"
    and r: "py_min_from key v k vs = Some r"
    by (auto simp: py_min_def split: list.splits option.splits)
  from py_min_from_least[OF k r] obtain kr where "key r = Some kr" "kr \<le> k"
    "\<forall>u\<in>set vs. \<forall>kv. key u = Some kv \<longrightarrow> kr \<le> kv" by blast
  with xs k show ?thesis by auto
qed

section \<open>The nearest-neighbour loop\<close>

lemma start_key_at_Some:
  "0 \<le> i \<Longrightarrow> i < int (length shops) \<Longrightarrow>
   start_key_at shops i = Some (start_key (shops ! nat i))"
  by (simp add: start_key_at_def py_index_def py_pos_def start_key_def)

lemma next_key_Some:
  "0 \<le> c \<Longrightarrow> c < int (length shops) \<Longrightarrow> 0 \<le> j \<Longrightarrow> j < int (length shops) \<Longrightarrow>
   next_key shops p c j = Some (step_cost (shops ! nat c) (shops ! nat j) p)"
  by (simp add: next_key_def py_index_def py_pos_def)

lemma mset_snoc_remove1:
  "x \<in> set xs \<Longrightarrow> mset (ys @ [x]) + mset (remove1 x xs) = mset ys + mset xs"
  by simp

lemma nn_loop_result:
  "set unvisited \<subseteq> {0..<int (length shops)} \<Longrightarrow> 0 \<le> current \<Longrightarrow>
   current < int (length shops) \<Longrightarrow>
   \<exists>r. nn_loop shops p current unvisited order = Some r
      \<and> mset r = mset order + mset unvisited \<and> (order \<noteq> [] \<longrightarrow> hd r = hd order)"
proof (induction shops p current unvisited order rule: nn_loop.induct)
  case (1 shops p current unvisited order)
  show ?case
  proof (cases "unvisited = []")
    case True
    then show ?thesis by (subst nn_loop.simps) simp
  next
    case False
    have "\<forall>v\<in>set unvisited. next_key shops p current v \<noteq> None"
      using "1.prems" by (auto simp: next_key_Some)
    from py_min_Some[OF False this]
    obtain nx where nx: "py_min (next_key shops p current) unvisited = Some nx"
      and mem: "nx \<in> set unvisited" by blast
    have rm: "set_remove nx unvisited = Some (remove1 nx unvisited)"
      using mem by (simp add: set_remove_def)
    have sub: "set (remove1 nx unvisited) \<subseteq> {0..<int (length shops)}"
      using "1.prems"(1) set_remove1_subset[of nx unvisited] by blast
    have rng: "0 \<le> nx" "nx < int (length shops)" using mem "1.prems"(1) by auto
    from "1.IH"[OF False nx rm sub rng]
    obtain r where r: "nn_loop shops p nx (remove1 nx unvisited) (order @ [nx]) = Some r"
      and ms: "mset r = mset (order @ [nx]) + mset (remove1 nx unvisited)"
      and h: "hd r = hd (order @ [nx])" by auto
    have "nn_loop shops p current unvisited order = Some r"
      using False nx rm r by (subst nn_loop.simps) simp
    moreover have "mset r = mset order + mset unvisited"
      unfolding ms using mem by (rule mset_snoc_remove1)
    moreover have "order \<noteq> [] \<longrightarrow> hd r = hd order" using h by simp
    ultimately show ?thesis by blast
  qed
qed

lemma nearest_neighbor_result:
  "\<exists>order. nearest_neighbor shops p = Some order
     \<and> mset order = mset (py_range (length shops))
     \<and> (shops \<noteq> [] \<longrightarrow>
          py_min (start_key_at shops) (py_range (length shops)) = Some (order ! 0))"
proof (cases "length shops = 0")
  case True
  then show ?thesis by (simp add: nearest_neighbor_def py_range_def)
next
  case False
  let ?n = "length shops"
  have ne: "py_range ?n \<noteq> []" using False by (simp add: py_range_nonempty)
  have "\<forall>v\<in>set (py_range ?n). start_key_at shops v \<noteq> None"
    by (auto simp: in_py_range start_key_at_Some)
  from py_min_Some[OF ne this]
  obtain st where st: "py_min (start_key_at shops) (py_range ?n) = Some st"
    and mem: "st \<in> set (py_range ?n)" by blast
  have rm: "set_remove st (py_range ?n) = Some (remove1 st (py_range ?n))"
    using mem by (simp add: set_remove_def)
  have sub: "set (remove1 st (py_range ?n)) \<subseteq> {0..<int ?n}"
    using set_remove1_subset[of st "py_range ?n"] by (simp add: set_py_range)
  have rng: "0 \<le> st" "st < int ?n" using mem by (simp_all add: in_py_range)
  from nn_loop_result[OF sub rng, of p "[st]"]
  obtain r where r: "nn_loop shops p st (remove1 st (py_range ?n)) [st] = Some r"
    and ms: "mset r = mset [st] + mset (remove1 st (py_range ?n))"
    and h: "hd r = st" by auto
  have res: "nearest_neighbor shops p = Some r"
    using False st rm r by (simp add: nearest_neighbor_def)
  have ms': "mset r = mset (py_range ?n)"
    unfolding ms using mset_snoc_remove1[OF mem, of "[]"] by simp
  then have "r \<noteq> []" using ne by auto
  with h have "r ! 0 = st" by (simp add: hd_conv_nth)
  with res ms' st show ?thesis by simp
qed

lemma start_is_least:
  assumes "py_min (start_key_at shops) (py_range (length shops)) = Some s"
  shows "0 \<le> s \<and> s < int (length shops)
       \<and> (\<forall>i<length shops. start_key (shops ! nat s) \<le> start_key (shops ! i))"
proof -
  from py_min_least[OF assms] obtain ks where ks: "start_key_at shops s = Some ks"
    and least: "\<forall>v\<in>set (py_range (length shops)). \<forall>kv. start_key_at shops v = Some kv \<longrightarrow> ks \<le> kv"
    by blast
  have "py_range (length shops) \<noteq> []" using assms by (auto simp: py_min_def)
  moreover have "\<forall>v\<in>set (py_range (length shops)). start_key_at shops v \<noteq> None"
    by (auto simp: in_py_range start_key_at_Some)
  ultimately have "s \<in> set (py_range (length shops))"
    using py_min_Some[of "py_range (length shops)" "start_key_at shops"] assms by auto
  then have rng: "0 \<le> s" "s < int (length shops)" by (simp_all add: in_py_range)
  with ks have ks': "ks = start_key (shops ! nat s)" by (simp add: start_key_at_Some)
  have "start_key (shops ! nat s) \<le> start_key (shops ! i)" if "i < length shops" for i
  proof -
    have "int i \<in> set (py_range (length shops))" using that by (simp add: in_py_range)
    moreover have "start_key_at shops (int i) = Some (start_key (shops ! i))"
      using that by (simp add: start_key_at_Some)
    ultimately show ?thesis using least ks' by blast
  qed
  with rng show ?thesis by blast
qed

section \<open>Lists, validity and the cost of a tour\<close>

lemma valid_orderD:
  "valid_order order shops \<Longrightarrow> k < length order \<Longrightarrow>
   - int (length shops) \<le> order ! k \<and> order ! k < int (length shops)"
  by (simp add: valid_order_def list_all_length)

lemma valid_order_mset:
  "mset order' = mset order \<Longrightarrow> valid_order order shops \<Longrightarrow> valid_order order' shops"
  by (metis valid_order_def list_all_iff mset_eq_setD)

lemma tour_cost_append:
  "xs \<noteq> [] \<Longrightarrow> ys \<noteq> [] \<Longrightarrow>
   tour_cost c (xs @ ys) = tour_cost c xs + c (last xs) (hd ys) + tour_cost c ys"
proof (induction xs)
  case Nil
  then show ?case by simp
next
  case (Cons a xs)
  show ?case
  proof (cases xs)
    case Nil
    with Cons.prems show ?thesis by (cases ys) simp_all
  next
    case (Cons b rest)
    with Cons.IH Cons.prems show ?thesis by simp
  qed
qed

lemma tour_cost_snoc:
  "xs \<noteq> [] \<Longrightarrow> tour_cost c (xs @ [a]) = tour_cost c xs + c (last xs) a"
  using tour_cost_append[of xs "[a]" c] by simp

lemma tour_cost_rev:
  assumes sym: "\<And>a b. c a b = c b a"
  shows "tour_cost c (rev xs) = tour_cost c xs"
proof (induction xs)
  case Nil
  then show ?case by simp
next
  case (Cons a xs)
  show ?case
  proof (cases xs)
    case Nil
    then show ?thesis by simp
  next
    case (Cons b rest)
    have "rev xs \<noteq> []" using Cons by simp
    then have "tour_cost c (rev xs @ [a]) = tour_cost c (rev xs) + c (last (rev xs)) a"
      by (rule tour_cost_snoc)
    then have "tour_cost c (rev (a # xs)) = tour_cost c (rev xs) + c (last (rev xs)) a"
      by simp
    also have "\<dots> = tour_cost c xs + c b a"
      using Cons Cons.IH by (simp add: last_rev)
    also have "\<dots> = tour_cost c (a # xs)"
      using Cons sym[of a b] by simp
    finally show ?thesis .
  qed
qed

lemma idx_cost_sym: "idx_cost shops p a b = idx_cost shops p b a"
  unfolding idx_cost_def by (rule step_cost_commute)

section \<open>Reversing a slice\<close>

lemma slice_decomp:
  "lo \<le> hi \<Longrightarrow> take lo xs @ take (hi - lo) (drop lo xs) @ drop hi xs = xs"
proof -
  assume le: "lo \<le> hi"
  have "drop hi xs = drop (hi - lo) (drop lo xs)" using le by simp
  then have "take (hi - lo) (drop lo xs) @ drop hi xs = drop lo xs"
    by (simp only: append_take_drop_id)
  then show ?thesis by (simp only: append_take_drop_id)
qed

lemma length_reverse_slice: "length (reverse_slice xs lo hi) = length xs"
  by (auto simp: reverse_slice_def max_def min_def)

lemma mset_reverse_slice: "mset (reverse_slice xs lo hi) = mset xs"
proof (cases "lo \<le> hi")
  case True
  have "mset (reverse_slice xs lo hi)
      = mset (take lo xs @ take (hi - lo) (drop lo xs) @ drop hi xs)"
    using True by (simp add: reverse_slice_def max_def)
  then show ?thesis using slice_decomp[OF True, of xs] by simp
next
  case False
  then show ?thesis
    by (simp add: reverse_slice_def max_def flip: mset_append)
qed

lemma nth_reverse_slice_low: "k < lo \<Longrightarrow> k < length xs \<Longrightarrow> reverse_slice xs lo hi ! k = xs ! k"
  by (simp add: reverse_slice_def nth_append)

lemma nth_reverse_slice_high:
  assumes "lo \<le> hi" "hi \<le> k" "k < length xs"
  shows "reverse_slice xs lo hi ! k = xs ! k"
proof -
  let ?A = "take lo xs @ rev (take (hi - lo) (drop lo xs))"
  have len: "length ?A = hi" using assms by simp
  have "reverse_slice xs lo hi = ?A @ drop hi xs"
    using assms by (simp add: reverse_slice_def max_def)
  moreover have "(?A @ drop hi xs) ! (length ?A + (k - hi)) = drop hi xs ! (k - hi)"
    by (rule nth_append_length_plus)
  moreover have "length ?A + (k - hi) = k" unfolding len using assms by simp
  ultimately have "reverse_slice xs lo hi ! k = drop hi xs ! (k - hi)" by simp
  then show ?thesis using assms by simp
qed

lemma tour_cost_reverse_mid:
  assumes sym: "\<And>a b. c a b = c b a" and ne: "A \<noteq> []" "B \<noteq> []" "C \<noteq> []"
  shows "tour_cost c (A @ rev B @ C)
       = tour_cost c (A @ B @ C) - (c (last A) (hd B) + c (last B) (hd C))
           + (c (last A) (last B) + c (hd B) (hd C))"
proof -
  have rB: "rev B \<noteq> []" using ne by simp
  have 1: "tour_cost c (A @ B @ C)
         = tour_cost c A + c (last A) (hd B) + (tour_cost c B + c (last B) (hd C) + tour_cost c C)"
    using ne by (simp add: tour_cost_append)
  have 2: "tour_cost c (A @ rev B @ C)
         = tour_cost c A + c (last A) (hd (rev B))
             + (tour_cost c (rev B) + c (last (rev B)) (hd C) + tour_cost c C)"
    using ne rB tour_cost_append[of A "rev B @ C" c] tour_cost_append[of "rev B" C c] by simp
  have 3: "hd (rev B) = last B" "last (rev B) = hd B"
    using ne by (simp_all add: hd_rev last_rev)
  show ?thesis
    unfolding 1 2 3 tour_cost_rev[of c, OF sym] by simp
qed

lemma tour_cost_reverse_slice:
  assumes sym: "\<And>a b. c a b = c b a" and b: "0 < lo" "lo < hi" "hi < length xs"
  shows "tour_cost c (reverse_slice xs lo hi)
       = tour_cost c xs - (c (xs ! (lo - 1)) (xs ! lo) + c (xs ! (hi - 1)) (xs ! hi))
           + (c (xs ! (lo - 1)) (xs ! (hi - 1)) + c (xs ! lo) (xs ! hi))"
proof -
  let ?A = "take lo xs" and ?B = "take (hi - lo) (drop lo xs)" and ?C = "drop hi xs"
  have ne: "?A \<noteq> []" "?B \<noteq> []" "?C \<noteq> []" using b by auto
  have dec: "?A @ ?B @ ?C = xs" using b by (intro slice_decomp) simp
  have "last ?A = ?A ! (length ?A - 1)" using ne(1) by (rule last_conv_nth)
  also have "length ?A = lo" using b by simp
  also have "?A ! (lo - 1) = xs ! (lo - 1)" using b by simp
  finally have lA: "last ?A = xs ! (lo - 1)" .
  have hB: "hd ?B = xs ! lo" using b by (simp add: hd_drop_conv_nth)
  have "last ?B = ?B ! (length ?B - 1)" using ne(2) by (rule last_conv_nth)
  also have "length ?B = hi - lo" using b by simp
  also have "?B ! (hi - lo - 1) = xs ! (hi - 1)" using b by simp
  finally have lB: "last ?B = xs ! (hi - 1)" .
  have hC: "hd ?C = xs ! hi" using b by (simp add: hd_drop_conv_nth)
  have "reverse_slice xs lo hi = ?A @ rev ?B @ ?C"
    using b by (simp add: reverse_slice_def max_def)
  then have "tour_cost c (reverse_slice xs lo hi) = tour_cost c (?A @ rev ?B @ ?C)" by simp
  also have "\<dots> = tour_cost c (?A @ ?B @ ?C) - (c (last ?A) (hd ?B) + c (last ?B) (hd ?C))
           + (c (last ?A) (last ?B) + c (hd ?B) (hd ?C))"
    using sym ne by (rule tour_cost_reverse_mid)
  finally show ?thesis unfolding dec lA hB lB hC .
qed

section \<open>Loops and the length of a path\<close>

lemma for_loop_total:
  assumes "I s" and step: "\<And>k t. k \<in> set ks \<Longrightarrow> I t \<Longrightarrow> \<exists>t'. body k t = Some t' \<and> I t'"
  shows "\<exists>s'. for_loop ks body s = Some s' \<and> I s'"
  using assms
proof (induction ks arbitrary: s)
  case Nil
  then show ?case by simp
next
  case (Cons k ks)
  from Cons.prems(2)[of k s] Cons.prems(1)
  obtain t where t: "body k s = Some t" "I t" by auto
  have "\<exists>s'. for_loop ks body t = Some s' \<and> I s'"
    using t(2) Cons.prems(2) by (intro Cons.IH) auto
  then show ?case using t(1) by simp
qed

lemma for_loop_partial:
  assumes "for_loop ks body s = Some s'" and "I s"
    and step: "\<And>k t t'. k \<in> set ks \<Longrightarrow> I t \<Longrightarrow> body k t = Some t' \<Longrightarrow> I t'"
  shows "I s'"
  using assms
proof (induction ks arbitrary: s)
  case Nil
  then show ?case by simp
next
  case (Cons k ks)
  from Cons.prems(1) obtain t where t: "body k s = Some t" "for_loop ks body t = Some s'"
    by (auto split: option.splits)
  have "I t" using Cons.prems(3)[of k s t] Cons.prems(2) t(1) by simp
  then show ?case using t(2) Cons.prems(3) by (intro Cons.IH[of t]) auto
qed

lemma sum_loop:
  assumes body: "\<And>k acc. Suc k < length order \<Longrightarrow> body k acc = Some (acc + c (order ! k) (order ! Suc k))"
  shows "i < length order \<Longrightarrow>
     for_loop [i..<length order - 1] body acc = Some (acc + tour_cost c (drop i order))"
proof (induction "length order - 1 - i" arbitrary: i acc)
  case 0
  then have i: "Suc i = length order" by simp
  have "drop i order = order ! i # drop (Suc i) order"
    using 0(2) by (rule Cons_nth_drop_Suc[symmetric])
  then have "drop i order = [order ! i]" using i by simp
  moreover have "length order - 1 \<le> i" using i by simp
  then have "[i..<length order - 1] = []" by (simp only: upt_eq_Nil_conv) simp
  ultimately show ?case by (simp only: for_loop.simps tour_cost.simps add_0_right)
next
  case (Suc d)
  then have lt: "Suc i < length order" by simp
  have r: "[i..<length order - 1] = i # [Suc i..<length order - 1]"
    using lt by (intro upt_conv_Cons) simp
  have d1: "drop i order = order ! i # drop (Suc i) order"
    using Suc.prems by (rule Cons_nth_drop_Suc[symmetric])
  have d2: "drop (Suc i) order = order ! Suc i # drop (Suc (Suc i)) order"
    using lt by (rule Cons_nth_drop_Suc[symmetric])
  have tc: "tour_cost c (drop i order)
      = c (order ! i) (order ! Suc i) + tour_cost c (drop (Suc i) order)"
  proof -
    have "tour_cost c (order ! i # order ! Suc i # drop (Suc (Suc i)) order)
        = c (order ! i) (order ! Suc i)
          + tour_cost c (order ! Suc i # drop (Suc (Suc i)) order)"
      by simp
    then show ?thesis unfolding d1 by (simp only: d2[symmetric])
  qed
  have IH: "for_loop [Suc i..<length order - 1] body acc'
     = Some (acc' + tour_cost c (drop (Suc i) order))" for acc'
    using Suc.hyps(2) lt by (intro Suc.hyps(1)) simp_all
  show ?case
    unfolding r by (simp only: for_loop.simps body[OF lt] option.case IH tc add.assoc)
qed

lemma path_length_valid:
  assumes v: "valid_order order shops"
  shows "path_length order shops p = Some (tour_cost (idx_cost shops p) order)"
proof (cases order)
  case Nil
  then show ?thesis by (simp add: path_length_def)
next
  case (Cons a rest)
  then have pos: "0 < length order" by simp
  have "for_loop [0..<length order - 1]
       (\<lambda>i acc. do {
          oi \<leftarrow> list_at order i;
          a \<leftarrow> py_index shops oi;
          oj \<leftarrow> list_at order (i + 1);
          b \<leftarrow> py_index shops oj;
          Some (acc + step_cost a b p)
        }) 0 = Some (0 + tour_cost (idx_cost shops p) (drop 0 order))"
  proof (rule sum_loop[OF _ pos])
    fix k acc
    assume "Suc k < length order"
    then show "do {
          oi \<leftarrow> list_at order k;
          a \<leftarrow> py_index shops oi;
          oj \<leftarrow> list_at order (k + 1);
          b \<leftarrow> py_index shops oj;
          Some (acc + step_cost a b p)
        } = Some (acc + idx_cost shops p (order ! k) (order ! Suc k))"
      using valid_orderD[OF v, of k] valid_orderD[OF v, of "Suc k"]
      by (simp add: list_at_Some py_index_Some idx_cost_def)
  qed
  then show ?thesis by (simp add: path_length_def)
qed

lemma seg_cost_valid:
  assumes "valid_order order shops" "i1 < length order" "i2 < length order"
    "j1 < length order" "j2 < length order"
  shows "seg_cost order shops p i1 i2 j1 j2
       = Some (idx_cost shops p (order ! i1) (order ! i2) + idx_cost shops p (order ! j1) (order ! j2))"
  using assms valid_orderD[OF assms(1)]
  by (simp add: seg_cost_def list_at_Some py_index_Some idx_cost_def)

section \<open>The invariant of the 2-opt loops\<close>

lemma same_ends_refl: "same_ends order order"
  by (simp add: same_ends_def)

lemma same_ends_trans: "same_ends a b \<Longrightarrow> same_ends b c \<Longrightarrow> same_ends a c"
  by (simp add: same_ends_def)

lemma same_ends_reverse_slice:
  assumes "0 < lo" "lo \<le> hi" "hi < length order"
  shows "same_ends order (reverse_slice order lo hi)"
proof -
  have "reverse_slice order lo hi ! 0 = order ! 0"
    using assms by (intro nth_reverse_slice_low) auto
  moreover have "reverse_slice order lo hi ! (length order - 1) = order ! (length order - 1)"
    using assms by (intro nth_reverse_slice_high) auto
  ultimately show ?thesis
    by (simp add: same_ends_def length_reverse_slice mset_reverse_slice)
qed

lemma pass_inv_start: "valid_order order shops \<Longrightarrow> pass_inv shops p order (order, False)"
  by (simp add: pass_inv_def same_ends_refl)

lemma two_opt_step_inv:
  assumes inv: "pass_inv shops p order0 (order, imp)"
    and b: "i + 2 \<le> j" "j + 1 < length order0"
  shows "\<exists>t'. two_opt_step shops p i j (order, imp) = Some t' \<and> pass_inv shops p order0 t'"
proof -
  let ?c = "idx_cost shops p"
  from inv have v: "valid_order order shops" and se: "same_ends order0 order"
    and le: "tour_cost ?c order \<le> tour_cost ?c order0"
    by (simp_all add: pass_inv_def)
  from se have len: "length order = length order0" by (simp add: same_ends_def)
  let ?before = "?c (order ! i) (order ! (i + 1)) + ?c (order ! j) (order ! (j + 1))"
  let ?after = "?c (order ! i) (order ! j) + ?c (order ! (i + 1)) (order ! (j + 1))"
  have before: "seg_cost order shops p i (i + 1) j (j + 1) = Some ?before"
    using b len by (intro seg_cost_valid[OF v]) simp_all
  have after: "seg_cost order shops p i j (i + 1) (j + 1) = Some ?after"
    using b len by (intro seg_cost_valid[OF v]) simp_all
  show ?thesis
  proof (cases "?after + 1 / 10 ^ 9 < ?before")
    case True
    let ?new = "reverse_slice order (i + 1) (j + 1)"
    have step: "two_opt_step shops p i j (order, imp) = Some (?new, True)"
      using True before after by (simp add: two_opt_step_def)
    have se': "same_ends order ?new"
      using b len by (intro same_ends_reverse_slice) simp_all
    then have v': "valid_order ?new shops"
      using v by (auto simp: same_ends_def intro: valid_order_mset)
    have "tour_cost ?c ?new = tour_cost ?c order
            - (?c (order ! (i + 1 - 1)) (order ! (i + 1)) + ?c (order ! (j + 1 - 1)) (order ! (j + 1)))
            + (?c (order ! (i + 1 - 1)) (order ! (j + 1 - 1)) + ?c (order ! (i + 1)) (order ! (j + 1)))"
      using b len by (intro tour_cost_reverse_slice idx_cost_sym) simp_all
    then have "tour_cost ?c ?new = tour_cost ?c order - ?before + ?after" by simp
    with True have "tour_cost ?c ?new < tour_cost ?c order" by simp
    with le have "tour_cost ?c ?new < tour_cost ?c order0" by simp
    with v' same_ends_trans[OF se se'] have "pass_inv shops p order0 (?new, True)"
      by (simp add: pass_inv_def)
    with step show ?thesis by blast
  next
    case False
    then have "two_opt_step shops p i j (order, imp) = Some (order, imp)"
      using before after by (simp add: two_opt_step_def)
    with inv show ?thesis by simp
  qed
qed

lemma two_opt_pass_inv:
  assumes v: "valid_order order shops"
  shows "\<exists>t'. two_opt_pass shops p (length order) order = Some t' \<and> pass_inv shops p order t'"
  unfolding two_opt_pass_def
proof (rule for_loop_total[where I = "pass_inv shops p order"])
  show "pass_inv shops p order (order, False)" using v by (rule pass_inv_start)
next
  fix i t
  assume i: "i \<in> set [0..<length order - 3]" and t: "pass_inv shops p order t"
  show "\<exists>t'. for_loop [i + 2..<length order - 1] (two_opt_step shops p i) t = Some t'
          \<and> pass_inv shops p order t'"
  proof (rule for_loop_total[where I = "pass_inv shops p order"])
    show "pass_inv shops p order t" by (rule t)
  next
    fix j u
    assume j: "j \<in> set [i + 2..<length order - 1]" and u: "pass_inv shops p order u"
    obtain ord imp where u_eq: "u = (ord, imp)" by (cases u)
    have "i + 2 \<le> j" "j + 1 < length order" using j by auto
    with u show "\<exists>t'. two_opt_step shops p i j u = Some t' \<and> pass_inv shops p order t'"
      unfolding u_eq by (intro two_opt_step_inv)
  qed
qed

lemma two_opt_while_inv:
  "valid_order order shops \<Longrightarrow> length order = n \<Longrightarrow>
   \<exists>order' imp' k'. two_opt_while shops p mp n (order, imp, k) = Some (order', imp', k')
      \<and> valid_order order' shops \<and> same_ends order order'
      \<and> tour_cost (idx_cost shops p) order' \<le> tour_cost (idx_cost shops p) order"
proof (induction shops p mp n "(order, imp, k)" arbitrary: order imp k rule: two_opt_while.induct)
  case (1 shops p mp n order imp k)
  show ?case
  proof (cases "imp \<and> k < mp")
    case False
    then have "two_opt_while shops p mp n (order, imp, k) = Some (order, imp, k)"
      by (subst two_opt_while.simps) auto
    with "1.prems" show ?thesis by (simp add: same_ends_refl)
  next
    case True
    from two_opt_pass_inv[OF "1.prems"(1), of p] "1.prems"(2)
    obtain o1 i1 where pass: "two_opt_pass shops p n order = Some (o1, i1)"
      and inv: "pass_inv shops p order (o1, i1)" by auto
    from inv have v1: "valid_order o1 shops" and se1: "same_ends order o1"
      and le1: "tour_cost (idx_cost shops p) o1 \<le> tour_cost (idx_cost shops p) order"
      by (simp_all add: pass_inv_def)
    from se1 "1.prems"(2) have len1: "length o1 = n" by (simp add: same_ends_def)
    from "1.hyps"[OF True pass refl v1 len1]
    obtain o2 i2 k2 where r: "two_opt_while shops p mp n (o1, i1, k + 1) = Some (o2, i2, k2)"
      and v2: "valid_order o2 shops" and se2: "same_ends o1 o2"
      and le2: "tour_cost (idx_cost shops p) o2 \<le> tour_cost (idx_cost shops p) o1"
      by blast
    have "two_opt_while shops p mp n (order, imp, k) = Some (o2, i2, k2)"
      using True pass r by (subst two_opt_while.simps) simp
    with v2 same_ends_trans[OF se1 se2] le1 le2 show ?thesis by simp
  qed
qed

lemma two_opt_total:
  assumes v: "valid_order order shops"
  shows "\<exists>order'. two_opt order shops p mp = Some order' \<and> valid_order order' shops
           \<and> same_ends order order'
           \<and> tour_cost (idx_cost shops p) order' \<le> tour_cost (idx_cost shops p) order"
proof (cases "length order < 4")
  case True
  then show ?thesis using v by (simp add: two_opt_def same_ends_refl)
next
  case False
  from two_opt_while_inv[OF v refl, of p mp True 0]
  obtain o' i' k' where "two_opt_while shops p mp (length order) (order, True, 0) = Some (o', i', k')"
    and "valid_order o' shops" "same_ends order o'"
    "tour_cost (idx_cost shops p) o' \<le> tour_cost (idx_cost shops p) order"
    by blast
  then show ?thesis using False by (simp add: two_opt_def)
qed

section \<open>The entry point, and what a returned result implies\<close>

lemma valid_of_range:
  "mset order = mset (py_range (length shops)) \<Longrightarrow> valid_order order shops"
  using perm_of_range(3)[of order "length shops"]
  by (auto simp: valid_order_def list_all_iff)

lemma compute_efficient_path_result:
  "\<exists>init order. nearest_neighbor shops p = Some init
     \<and> mset init = mset (py_range (length shops))
     \<and> two_opt init shops p 20 = Some order
     \<and> compute_efficient_path shops p = Some (order, tour_cost (idx_cost shops p) order)
     \<and> valid_order init shops \<and> valid_order order shops
     \<and> same_ends init order
     \<and> tour_cost (idx_cost shops p) order \<le> tour_cost (idx_cost shops p) init"
proof -
  from nearest_neighbor_result[of shops p]
  obtain init where nn: "nearest_neighbor shops p = Some init"
    and ms: "mset init = mset (py_range (length shops))" by blast
  from ms have vi: "valid_order init shops" by (rule valid_of_range)
  from two_opt_total[OF vi, of p 20]
  obtain order where r: "two_opt init shops p 20 = Some order"
    and v: "valid_order order shops" and se: "same_ends init order"
    and le: "tour_cost (idx_cost shops p) order \<le> tour_cost (idx_cost shops p) init"
    by blast
  have "compute_efficient_path shops p = Some (order, tour_cost (idx_cost shops p) order)"
    by (simp add: compute_efficient_path_def nn r path_length_valid[OF v])
  with nn ms r vi v se le show ?thesis by blast
qed

lemma seg_cost_Some_bound:
  "seg_cost order shops p i1 i2 j1 j2 = Some v \<Longrightarrow> j2 < length order"
  by (auto simp: seg_cost_def list_at_eq_Some split: bind_splits)

lemma two_opt_step_ends:
  assumes "two_opt_step shops p i j (order, imp) = Some (order', imp')" "i + 2 \<le> j"
  shows "same_ends order order'"
proof -
  from assms(1) obtain b where b: "seg_cost order shops p i (i + 1) j (j + 1) = Some b"
    by (auto simp: two_opt_step_def split: bind_splits)
  then have "j + 1 < length order" by (rule seg_cost_Some_bound)
  then have "same_ends order (reverse_slice order (i + 1) (j + 1))"
    using assms(2) by (intro same_ends_reverse_slice) simp_all
  with assms(1) show ?thesis
    by (auto simp: two_opt_step_def same_ends_refl split: bind_splits if_splits)
qed

lemma two_opt_pass_ends:
  assumes "two_opt_pass shops p n order = Some t'"
  shows "same_ends order (fst t')"
proof (rule for_loop_partial[OF assms[unfolded two_opt_pass_def], where I = "\<lambda>t. same_ends order (fst t)"])
  show "same_ends order (fst (order, False))" by (simp add: same_ends_refl)
next
  fix i t t'
  assume i: "i \<in> set [0..<n - 3]" and t: "same_ends order (fst t)"
    and r: "for_loop [i + 2..<n - 1] (two_opt_step shops p i) t = Some t'"
  show "same_ends order (fst t')"
  proof (rule for_loop_partial[OF r, where I = "\<lambda>t. same_ends order (fst t)"])
    show "same_ends order (fst t)" by (rule t)
  next
    fix j u u'
    assume j: "j \<in> set [i + 2..<n - 1]" and u: "same_ends order (fst u)"
      and s: "two_opt_step shops p i j u = Some u'"
    have "i + 2 \<le> j" using j by simp
    with s have "same_ends (fst u) (fst u')"
      by (cases u, cases u') (auto intro: two_opt_step_ends)
    with u show "same_ends order (fst u')" by (rule same_ends_trans)
  qed
qed

lemma two_opt_while_ends:
  "two_opt_while shops p mp n (order, imp, k) = Some (order', imp', k') \<Longrightarrow> same_ends order order'"
proof (induction shops p mp n "(order, imp, k)" arbitrary: order imp k rule: two_opt_while.induct)
  case (1 shops p mp n order imp k)
  show ?case
  proof (cases "imp \<and> k < mp")
    case False
    with "1.prems" have "order' = order" by (subst (asm) two_opt_while.simps) auto
    then show ?thesis by (simp add: same_ends_refl)
  next
    case True
    with "1.prems" obtain o1 i1 where pass: "two_opt_pass shops p n order = Some (o1, i1)"
      and r: "two_opt_while shops p mp n (o1, i1, k + 1) = Some (order', imp', k')"
      by (subst (asm) two_opt_while.simps) (auto split: option.splits)
    from two_opt_pass_ends[OF pass] have "same_ends order o1" by simp
    moreover from "1.hyps"[OF True pass refl r] have "same_ends o1 order'" .
    ultimately show ?thesis by (rule same_ends_trans)
  qed
qed

lemma two_opt_ends: "two_opt order shops p mp = Some order' \<Longrightarrow> same_ends order order'"
  by (auto simp: two_opt_def Let_def same_ends_refl split: if_splits dest: two_opt_while_ends)

section \<open>Runs of 2-opt that have converged\<close>

lemma two_opt_while_fixpoint:
  "two_opt_while shops p mp n (order, imp, k) = Some (o1, False, k1) \<Longrightarrow>
   valid_order order shops \<Longrightarrow> length order = n \<Longrightarrow>
   imp \<or> two_opt_pass shops p n order = Some (order, False) \<Longrightarrow>
   two_opt_pass shops p n o1 = Some (o1, False)"
proof (induction shops p mp n "(order, imp, k)" arbitrary: order imp k rule: two_opt_while.induct)
  case (1 shops p mp n order imp k)
  show ?case
  proof (cases "imp \<and> k < mp")
    case False
    with "1.prems"(1) have "o1 = order" "\<not> imp"
      by (subst (asm) two_opt_while.simps, auto)+
    with "1.prems"(4) show ?thesis by simp
  next
    case True
    with "1.prems"(1) obtain o' i' where pass: "two_opt_pass shops p n order = Some (o', i')"
      and r: "two_opt_while shops p mp n (o', i', k + 1) = Some (o1, False, k1)"
      by (subst (asm) two_opt_while.simps) (auto split: option.splits)
    from two_opt_pass_inv[OF "1.prems"(2), of p] pass "1.prems"(3)
    have inv: "pass_inv shops p order (o', i')" by simp
    then have v': "valid_order o' shops" and len': "length o' = n"
      using "1.prems"(3) by (simp_all add: pass_inv_def same_ends_def)
    have "i' \<or> two_opt_pass shops p n o' = Some (o', False)"
    proof (cases i')
      case True
      then show ?thesis by simp
    next
      case False
      with inv have "o' = order" by (simp add: pass_inv_def)
      with pass False show ?thesis by simp
    qed
    with "1.hyps"[OF True pass refl r v' len'] show ?thesis .
  qed
qed

lemma two_opt_at_fixpoint:
  assumes "two_opt_pass shops p (length o1) o1 = Some (o1, False)"
  shows "two_opt o1 shops p mp = Some o1"
proof (cases "0 < mp")
  case True
  have "two_opt_while shops p mp (length o1) (o1, False, 0 + 1) = Some (o1, False, 0 + 1)"
    by (subst two_opt_while.simps) simp
  then have "two_opt_while shops p mp (length o1) (o1, True, 0) = Some (o1, False, 0 + 1)"
    using True assms by (subst two_opt_while.simps) simp
  then show ?thesis by (simp add: two_opt_def Let_def)
next
  case False
  then have "two_opt_while shops p mp (length o1) (o1, True, 0) = Some (o1, True, 0)"
    by (subst two_opt_while.simps) simp
  then show ?thesis by (simp add: two_opt_def Let_def)
qed

lemma two_opt_converged_rerun:
  assumes v: "valid_order order shops" and c: "two_opt_converged order shops p mp"
    and r: "two_opt order shops p mp = Some o1"
  shows "two_opt o1 shops p mp = Some o1"
proof (cases "length order < 4")
  case True
  with r have "o1 = order" by (simp add: two_opt_def)
  with True show ?thesis by (simp add: two_opt_def)
next
  case False
  with c r obtain k1 where w: "two_opt_while shops p mp (length order) (order, True, 0) = Some (o1, False, k1)"
    by (auto simp: two_opt_converged_def two_opt_def split: option.splits)
  from two_opt_while_fixpoint[OF w v refl]
  have "two_opt_pass shops p (length order) o1 = Some (o1, False)" by simp
  moreover have "length o1 = length order"
    using two_opt_ends[OF r] by (simp add: same_ends_def)
  ultimately show ?thesis by (intro two_opt_at_fixpoint) simp
qed

section \<open>The concrete malls, evaluated\<close>

lemma hypot_0_right: "hypot dx 0 = \<bar>dx\<bar>"
  by (simp add: hypot_def)

lemma hypot_0_left: "hypot 0 dy = \<bar>dy\<bar>"
  by (simp add: hypot_def)

lemma hypot_10_10: "hypot 10 10 = sqrt 200" "hypot (- 10) 10 = sqrt 200" "hypot 10 (- 10) = sqrt 200"
  "hypot (- 10) (- 10) = sqrt 200"
  by (simp_all add: hypot_def)

lemma sqrt_200_gt: "10 < sqrt 200"
  by (rule real_less_rsqrt) simp

lemma square_nn: "nearest_neighbor (square_mall f) p = Some [0, 1, 2, 3]"
proof -
  have start: "py_min (start_key_at (square_mall f)) (py_range 4) = Some 0"
    by (simp add: py_min_def py_range_def upt_rec start_key_at_def py_index_def py_pos_def
        square_mall_def less_prod_def)
  have loop: "nn_loop (square_mall f) p 0 [1, 2, 3] [0] = Some [0, 1, 2, 3]"
    using sqrt_200_gt
    by (simp add: nn_loop.simps py_min_def set_remove_def next_key_def py_index_def py_pos_def
        square_mall_def step_cost_def hypot_0_right hypot_0_left hypot_10_10)
  have len: "length (square_mall f) = 4" by (simp add: square_mall_def)
  have rm: "set_remove 0 (py_range 4) = Some [1, 2, 3]"
    by (simp add: set_remove_def py_range_def upt_rec)
  show ?thesis
    by (simp add: nearest_neighbor_def len start rm loop)
qed

lemma square_path: "path_length [0, 1, 2, 3] (square_mall f) p = Some 30"
  by (simp add: path_length_def upt_rec list_at_def py_index_def py_pos_def square_mall_def
      step_cost_def hypot_0_right hypot_0_left)

lemma square_two_opt: "two_opt [0, 1, 2, 3] (square_mall f) p 20 = Some [0, 1, 2, 3]"
proof -
  have "\<not> sqrt 200 + sqrt 200 + 1 / 10 ^ 9 < 10 + 10" using sqrt_200_gt by simp
  then show ?thesis
    by (simp add: two_opt_def two_opt_while.simps two_opt_pass_def two_opt_step_def seg_cost_def
        upt_rec list_at_def py_index_def py_pos_def square_mall_def
        step_cost_def hypot_0_right hypot_0_left hypot_10_10)
qed

lemma square_converged: "two_opt_converged [0, 1, 2, 3] (square_mall f) p 20"
proof -
  have "\<not> sqrt 200 + sqrt 200 + 1 / 10 ^ 9 < 10 + 10" using sqrt_200_gt by simp
  then show ?thesis
    by (simp add: two_opt_converged_def two_opt_while.simps two_opt_pass_def two_opt_step_def
        seg_cost_def upt_rec list_at_def py_index_def py_pos_def square_mall_def
        step_cost_def hypot_0_right hypot_0_left hypot_10_10)
qed

lemma square_two_opt_no_pass: "two_opt [0, 2, 1, 3] (square_mall f) p 0 = Some [0, 2, 1, 3]"
  by (simp add: two_opt_def two_opt_while.simps)

lemma square_compute:
  "compute_efficient_path (square_mall f) p = Some ([0, 1, 2, 3], 30)"
  by (simp add: compute_efficient_path_def square_nn square_two_opt square_path)

lemma line_two_opt_first: "two_opt [0, 1, 2, 3, 4] line_mall 1 1 = Some [0, 3, 2, 1, 4]"
  by (simp add: two_opt_def two_opt_while.simps two_opt_pass_def two_opt_step_def seg_cost_def
      reverse_slice_def upt_rec list_at_def py_index_def py_pos_def line_mall_def
      step_cost_def hypot_0_right)

lemma line_two_opt_second: "two_opt [0, 3, 2, 1, 4] line_mall 1 1 = Some [0, 2, 3, 1, 4]"
  by (simp add: two_opt_def two_opt_while.simps two_opt_pass_def two_opt_step_def seg_cost_def
      reverse_slice_def upt_rec list_at_def py_index_def py_pos_def line_mall_def
      step_cost_def hypot_0_right)

lemma line_path_first: "path_length [0, 3, 2, 1, 4] line_mall 1 = Some 15"
  by (simp add: path_length_def upt_rec list_at_def py_index_def py_pos_def line_mall_def
      step_cost_def hypot_0_right)

lemma line_path_second: "path_length [0, 2, 3, 1, 4] line_mall 1 = Some 13"
  by (simp add: path_length_def upt_rec list_at_def py_index_def py_pos_def line_mall_def
      step_cost_def hypot_0_right)

section \<open>Lookup by name\<close>

lemma get_shop_coordinates_None:
  "get_shop_coordinates shops nm = None \<longleftrightarrow> nm \<notin> shop_name ` set shops"
  by (induction shops) auto

lemma get_shop_coordinates_first:
  "nm \<notin> shop_name ` set pre \<Longrightarrow> shop_name s = nm \<Longrightarrow>
   get_shop_coordinates (pre @ s # post) nm = Some (shop_x s, shop_y s, shop_floor s)"
  by (induction pre) auto

section \<open>The claims\<close>

text \<open>
  Claim C1. For every list of shops and every floor penalty, \<open>nearest_neighbor\<close> returns
  an order and \<open>compute_efficient_path\<close> returns an order with a total cost, and both
  orders are permutations of the indices \<open>0..n-1\<close> of the list: their length is \<open>n\<close>, no
  index occurs twice, and every index occurs.
\<close>

theorem tour_is_permutation:
  "(\<exists>init. nearest_neighbor shops p = Some init
      \<and> length init = length shops \<and> distinct init \<and> set init = {0..<int (length shops)})
   \<and> (\<exists>order total. compute_efficient_path shops p = Some (order, total)
         \<and> length order = length shops \<and> distinct order
         \<and> set order = {0..<int (length shops)})"
proof -
  from compute_efficient_path_result[of shops p]
  obtain init order where nn: "nearest_neighbor shops p = Some init"
    and ms: "mset init = mset (py_range (length shops))"
    and r: "compute_efficient_path shops p = Some (order, tour_cost (idx_cost shops p) order)"
    and se: "same_ends init order" by blast
  from se ms have ms': "mset order = mset (py_range (length shops))"
    by (simp add: same_ends_def)
  from nn r perm_of_range[OF ms] perm_of_range[OF ms'] show ?thesis by blast
qed

text \<open>
  Claim C3, as the code has it. For every floor penalty greater than 0, the cost of a step
  is 0 exactly when the two shops have the same \<open>x\<close>, the same \<open>y\<close> and the same floor. With
  the floor penalty 0 the cost is the planar distance, and is 0 exactly when the two shops
  have the same \<open>x\<close> and the same \<open>y\<close>, whatever their floors.
\<close>

theorem cost_zero_iff:
  "(0 < p \<longrightarrow>
      (step_cost a b p = 0 \<longleftrightarrow>
         shop_x a = shop_x b \<and> shop_y a = shop_y b \<and> shop_floor a = shop_floor b))
   \<and> step_cost a b 0 = hypot (shop_x a - shop_x b) (shop_y a - shop_y b)
   \<and> (step_cost a b 0 = 0 \<longleftrightarrow> shop_x a = shop_x b \<and> shop_y a = shop_y b)"
proof (intro conjI impI)
  assume p: "0 < p"
  have h: "0 \<le> hypot (shop_x a - shop_x b) (shop_y a - shop_y b)" by (rule hypot_nonneg)
  have f: "0 \<le> p * real_of_int \<bar>shop_floor a - shop_floor b\<bar>" using p by simp
  have "step_cost a b p = 0 \<longleftrightarrow>
        hypot (shop_x a - shop_x b) (shop_y a - shop_y b) = 0
        \<and> p * real_of_int \<bar>shop_floor a - shop_floor b\<bar> = 0"
    unfolding step_cost_def Let_def using h f by (rule add_nonneg_eq_0_iff)
  also have "\<dots> \<longleftrightarrow> shop_x a = shop_x b \<and> shop_y a = shop_y b \<and> shop_floor a = shop_floor b"
    using p by (simp add: hypot_eq_0_iff)
  finally show "step_cost a b p = 0 \<longleftrightarrow>
         shop_x a = shop_x b \<and> shop_y a = shop_y b \<and> shop_floor a = shop_floor b" .
next
  show "step_cost a b 0 = hypot (shop_x a - shop_x b) (shop_y a - shop_y b)"
    by (simp add: step_cost_def)
next
  show "step_cost a b 0 = 0 \<longleftrightarrow> shop_x a = shop_x b \<and> shop_y a = shop_y b"
    by (simp add: step_cost_def hypot_eq_0_iff)
qed

theorem cost_zero_iff_witness:
  "(0::real) < 50
   \<and> (step_cost shop_A1 shop_A2 50 = 0 \<longleftrightarrow>
        shop_x shop_A1 = shop_x shop_A2
        \<and> shop_y shop_A1 = shop_y shop_A2
        \<and> shop_floor shop_A1 = shop_floor shop_A2)"
  using cost_zero_iff[of 50 shop_A1 shop_A2] by simp

text \<open>
  The claim C3 as it is written fails at the floor penalty 0: two shops at the same
  coordinates on different floors are at cost 0 of each other.
\<close>

theorem cost_zero_counterexample:
  "(0::real) \<le> 0
   \<and> step_cost \<lparr>shop_name = ''A'', shop_floor = 0, shop_x = 0, shop_y = 0\<rparr>
        \<lparr>shop_name = ''B'', shop_floor = 1, shop_x = 0, shop_y = 0\<rparr> 0 = 0
   \<and> shop_floor \<lparr>shop_name = ''A'', shop_floor = 0, shop_x = 0, shop_y = 0\<rparr>
       \<noteq> shop_floor \<lparr>shop_name = ''B'', shop_floor = 1, shop_x = 0, shop_y = 0\<rparr>"
  by (simp add: step_cost_def hypot_def)

text \<open>
  Claim C4, as the code has it. On a valid order, \<open>two_opt\<close> returns an order, and a second
  run on that order with the same shops, floor penalty and \<open>max_passes\<close> returns an order
  too; both have a total cost. When the first run has converged (it left the loop because a
  pass reversed nothing, or the order has fewer than four entries), the second run returns
  the same order, with the same total cost. When the first run stopped because
  \<open>max_passes\<close> was reached, the second run may return another order, at another cost.
\<close>

theorem two_opt_rerun:
  "valid_order order shops \<longrightarrow>
     (\<exists>o1 o2 c1 c2. two_opt order shops p max_passes = Some o1
        \<and> two_opt o1 shops p max_passes = Some o2
        \<and> path_length o1 shops p = Some c1 \<and> path_length o2 shops p = Some c2
        \<and> (two_opt_converged order shops p max_passes \<longrightarrow> o2 = o1 \<and> c2 = c1))"
proof
  assume v: "valid_order order shops"
  from two_opt_total[OF v, of p max_passes]
  obtain o1 where r1: "two_opt order shops p max_passes = Some o1" and v1: "valid_order o1 shops"
    by blast
  from two_opt_total[OF v1, of p max_passes]
  obtain o2 where r2: "two_opt o1 shops p max_passes = Some o2" and v2: "valid_order o2 shops"
    by blast
  from path_length_valid[OF v1, of p] obtain c1 where c1: "path_length o1 shops p = Some c1"
    by blast
  from path_length_valid[OF v2, of p] obtain c2 where c2: "path_length o2 shops p = Some c2"
    by blast
  have conv: "o2 = o1 \<and> c2 = c1" if "two_opt_converged order shops p max_passes"
  proof -
    from two_opt_converged_rerun[OF v that r1] r2 have "o2 = o1" by simp
    with c1 c2 show ?thesis by simp
  qed
  show "\<exists>o1 o2 c1 c2. two_opt order shops p max_passes = Some o1
        \<and> two_opt o1 shops p max_passes = Some o2
        \<and> path_length o1 shops p = Some c1 \<and> path_length o2 shops p = Some c2
        \<and> (two_opt_converged order shops p max_passes \<longrightarrow> o2 = o1 \<and> c2 = c1)"
    using r1 r2 c1 c2 conv by blast
qed

theorem two_opt_rerun_witness:
  "valid_order [0, 1, 2, 3] (square_mall 1)
   \<and> two_opt_converged [0, 1, 2, 3] (square_mall 1) 50 20
   \<and> (\<exists>o1 o2 c1 c2. two_opt [0, 1, 2, 3] (square_mall 1) 50 20 = Some o1
        \<and> two_opt o1 (square_mall 1) 50 20 = Some o2
        \<and> path_length o1 (square_mall 1) 50 = Some c1
        \<and> path_length o2 (square_mall 1) 50 = Some c2
        \<and> o2 = o1 \<and> c2 = c1)"
proof -
  have v: "valid_order [0, 1, 2, 3] (square_mall 1)"
    by (simp add: valid_order_def square_mall_def)
  have c: "two_opt_converged [0, 1, 2, 3] (square_mall 1) 50 20"
    by (rule square_converged)
  from two_opt_rerun[of "[0, 1, 2, 3]" "square_mall 1" 50 20] v c
  show ?thesis by blast
qed

text \<open>
  The claim C4 as it is written fails when the first run stops because \<open>max_passes\<close> is
  reached: on the five shops of \<open>line_mall\<close>, with floor penalty 1 and \<open>max_passes = 1\<close>,
  the first run turns the order 0, 1, 2, 3, 4 into 0, 3, 2, 1, 4 of cost 15, and the second
  run turns that into 0, 2, 3, 1, 4 of cost 13.
\<close>

theorem two_opt_rerun_counterexample:
  "two_opt [0, 1, 2, 3, 4] line_mall 1 1 = Some [0, 3, 2, 1, 4]
   \<and> path_length [0, 3, 2, 1, 4] line_mall 1 = Some 15
   \<and> two_opt [0, 3, 2, 1, 4] line_mall 1 1 = Some [0, 2, 3, 1, 4]
   \<and> path_length [0, 2, 3, 1, 4] line_mall 1 = Some 13"
  by (simp only: line_two_opt_first line_two_opt_second line_path_first line_path_second simp_thms)

text \<open>
  Claim C5, as the code has it. No configuration is rejected. With a negative floor
  penalty \<open>compute_efficient_path\<close> returns a permutation of the indices and its total
  cost, as it does for any other penalty; with a negative floor penalty or a non-positive
  \<open>max_passes\<close>, \<open>two_opt\<close> on a valid order returns an order with the same entries; and
  with a non-positive \<open>max_passes\<close> it returns its input unchanged, without running a pass.
\<close>

theorem no_configuration_rejected:
  "(floor_penalty < 0 \<longrightarrow>
      (\<exists>order total. compute_efficient_path shops floor_penalty = Some (order, total)
         \<and> length order = length shops \<and> distinct order
         \<and> set order = {0..<int (length shops)}))
   \<and> (floor_penalty < 0 \<or> max_passes \<le> 0 \<longrightarrow> valid_order order shops \<longrightarrow>
        (\<exists>order'. two_opt order shops floor_penalty max_passes = Some order'
           \<and> mset order' = mset order))
   \<and> (max_passes \<le> 0 \<longrightarrow> two_opt order shops floor_penalty max_passes = Some order)"
proof (intro conjI impI)
  from compute_efficient_path_result[of shops floor_penalty]
  obtain init order where ms: "mset init = mset (py_range (length shops))"
    and r: "compute_efficient_path shops floor_penalty
          = Some (order, tour_cost (idx_cost shops floor_penalty) order)"
    and se: "same_ends init order" by blast
  from se ms have "mset order = mset (py_range (length shops))"
    by (simp add: same_ends_def)
  from perm_of_range[OF this] r
  show "\<exists>order total. compute_efficient_path shops floor_penalty = Some (order, total)
         \<and> length order = length shops \<and> distinct order
         \<and> set order = {0..<int (length shops)}"
    by blast
next
  assume "valid_order order shops"
  from two_opt_total[OF this, of floor_penalty max_passes]
  show "\<exists>order'. two_opt order shops floor_penalty max_passes = Some order'
           \<and> mset order' = mset order"
    by (auto simp: same_ends_def)
next
  assume "max_passes \<le> 0"
  then have "two_opt_while shops floor_penalty max_passes (length order) (order, True, 0)
           = Some (order, True, 0)"
    by (subst two_opt_while.simps) simp
  then show "two_opt order shops floor_penalty max_passes = Some order"
    by (simp add: two_opt_def Let_def)
qed

theorem no_configuration_rejected_witness:
  "(- 50 :: real) < 0 \<and> (0 :: int) \<le> 0 \<and> valid_order [0, 2, 1, 3] (square_mall 1)
   \<and> (\<exists>order total. compute_efficient_path (square_mall 1) (- 50) = Some (order, total)
         \<and> length order = length (square_mall 1) \<and> distinct order
         \<and> set order = {0..<int (length (square_mall 1))})
   \<and> (\<exists>order'. two_opt [0, 2, 1, 3] (square_mall 1) (- 50) 0 = Some order'
         \<and> mset order' = mset [0, 2, 1, 3])
   \<and> two_opt [0, 2, 1, 3] (square_mall 1) (- 50) 0 = Some [0, 2, 1, 3]"
proof -
  have v: "valid_order [0, 2, 1, 3] (square_mall 1)"
    by (simp add: valid_order_def square_mall_def)
  have p: "(- 50 :: real) < 0" and m: "(0 :: int) \<le> 0" by simp_all
  from no_configuration_rejected[of "- 50" "square_mall 1" 0 "[0, 2, 1, 3]"] v p m
  show ?thesis by blast
qed

text \<open>
  The claim C5 as it is written fails: with the floor penalty \<open>-50\<close> the entry point
  returns a tour of the square, and with \<open>max_passes = 0\<close> the refinement returns the
  crossing order 0, 2, 1, 3 it was given.
\<close>

theorem invalid_configuration_counterexample:
  "(- 50 :: real) < 0
   \<and> compute_efficient_path (square_mall 1) (- 50) = Some ([0, 1, 2, 3], 30)
   \<and> (0 :: int) \<le> 0
   \<and> two_opt [0, 2, 1, 3] (square_mall 1) 50 0 = Some [0, 2, 1, 3]"
  by (simp add: square_compute square_two_opt_no_pass del: One_nat_def)

text \<open>
  Claim C6. The cost of a step is symmetric: for all shops \<open>a\<close> and \<open>b\<close> and every floor
  penalty \<open>p\<close> (the non-negative ones in particular), \<open>step_cost a b p\<close> equals
  \<open>step_cost b a p\<close>.
\<close>

theorem step_cost_symmetric: "step_cost a b p = step_cost b a p"
  by (rule step_cost_commute)

text \<open>
  Claim C7. For the four shops A, B, C, D at \<open>(0,0)\<close>, \<open>(10,0)\<close>, \<open>(10,10)\<close>, \<open>(0,10)\<close> on one
  floor, stored in that order, and the floor penalty 50: \<open>nearest_neighbor\<close> starts at A
  and visits the shops in the order of the store, at the total cost 30; \<open>two_opt\<close> leaves
  that order as it is; \<open>compute_efficient_path\<close> returns the order 0, 1, 2, 3 and the total
  cost 30.
\<close>

theorem square_scenario:
  "nearest_neighbor (square_mall f) 50 = Some [0, 1, 2, 3]
   \<and> path_length [0, 1, 2, 3] (square_mall f) 50 = Some 30
   \<and> two_opt [0, 1, 2, 3] (square_mall f) 50 20 = Some [0, 1, 2, 3]
   \<and> compute_efficient_path (square_mall f) 50 = Some ([0, 1, 2, 3], 30)"
  by (simp only: square_nn square_path square_two_opt square_compute simp_thms)

text \<open>
  Claim C8. On the empty list of shops \<open>compute_efficient_path\<close> returns a result, the
  empty order with the total cost 0.
\<close>

theorem empty_mall: "compute_efficient_path [] floor_penalty = Some ([], 0)"
  by (simp add: compute_efficient_path_def nearest_neighbor_def two_opt_def path_length_def)

text \<open>
  Claim C9. When no shop has the requested name, \<open>get_shop_coordinates\<close> returns \<open>None\<close>
  and \<open>calculate_walking_time\<close> returns \<open>''Shop not found.''\<close> in place of a time, and only
  then. When several shops have the requested name, the first of them in the store is the
  one whose coordinates are returned and from which the walking time is computed.
\<close>

theorem lookup_by_name:
  "(get_shop_coordinates shops nm = None \<longleftrightarrow> nm \<notin> shop_name ` set shops)
   \<and> (calculate_walking_time shops nm nm' = Inl ''Shop not found.''
        \<longleftrightarrow> nm \<notin> shop_name ` set shops \<or> nm' \<notin> shop_name ` set shops)
   \<and> (shop_name s \<notin> shop_name ` set pre \<longrightarrow>
        get_shop_coordinates (pre @ s # post) (shop_name s)
          = Some (shop_x s, shop_y s, shop_floor s))
   \<and> (shops = pre @ s # post \<and> shop_name s \<notin> shop_name ` set pre
        \<and> shops = pre' @ s' # post' \<and> shop_name s' \<notin> shop_name ` set pre' \<longrightarrow>
        calculate_walking_time shops (shop_name s) (shop_name s')
          = Inr (\<bar>shop_x s - shop_x s'\<bar> + \<bar>shop_y s - shop_y s'\<bar>
                 + (if shop_floor s \<noteq> shop_floor s' then 30 else 0)))"
proof (intro conjI impI)
  show "get_shop_coordinates shops nm = None \<longleftrightarrow> nm \<notin> shop_name ` set shops"
    by (rule get_shop_coordinates_None)
next
  show "calculate_walking_time shops nm nm' = Inl ''Shop not found.''
        \<longleftrightarrow> nm \<notin> shop_name ` set shops \<or> nm' \<notin> shop_name ` set shops"
    unfolding get_shop_coordinates_None[symmetric]
    by (auto simp: calculate_walking_time_def Let_def split: option.splits)
next
  assume "shop_name s \<notin> shop_name ` set pre"
  then show "get_shop_coordinates (pre @ s # post) (shop_name s)
          = Some (shop_x s, shop_y s, shop_floor s)"
    by (rule get_shop_coordinates_first) simp
next
  assume a: "shops = pre @ s # post \<and> shop_name s \<notin> shop_name ` set pre
        \<and> shops = pre' @ s' # post' \<and> shop_name s' \<notin> shop_name ` set pre'"
  then have e1: "shops = pre @ s # post" and n1: "shop_name s \<notin> shop_name ` set pre"
    and e2: "shops = pre' @ s' # post'" and n2: "shop_name s' \<notin> shop_name ` set pre'"
    by blast+
  have 1: "get_shop_coordinates shops (shop_name s) = Some (shop_x s, shop_y s, shop_floor s)"
    by (subst e1) (rule get_shop_coordinates_first[OF n1 refl])
  have 2: "get_shop_coordinates shops (shop_name s')
      = Some (shop_x s', shop_y s', shop_floor s')"
    by (subst e2) (rule get_shop_coordinates_first[OF n2 refl])
  show "calculate_walking_time shops (shop_name s) (shop_name s')
          = Inr (\<bar>shop_x s - shop_x s'\<bar> + \<bar>shop_y s - shop_y s'\<bar>
                 + (if shop_floor s \<noteq> shop_floor s' then 30 else 0))"
    by (simp add: calculate_walking_time_def 1 2 Let_def)
qed

theorem lookup_by_name_witness:
  "''Z'' \<notin> shop_name ` set dup_mall
   \<and> get_shop_coordinates dup_mall ''Z'' = None
   \<and> calculate_walking_time dup_mall ''Z'' ''A'' = Inl ''Shop not found.''
   \<and> dup_mall = [] @ shop_A1 # [shop_B, shop_A2]
   \<and> shop_name shop_A1 \<notin> shop_name ` set []
   \<and> dup_mall = [shop_A1] @ shop_B # [shop_A2]
   \<and> shop_name shop_B \<notin> shop_name ` set [shop_A1]
   \<and> shop_name shop_A2 = shop_name shop_A1
   \<and> get_shop_coordinates dup_mall ''A'' = Some (1, 2, 0)
   \<and> calculate_walking_time dup_mall ''A'' ''B'' = Inr 34"
proof -
  note t = lookup_by_name[of dup_mall "''Z''" "''A''" shop_A1 "[]" "[shop_B, shop_A2]"
      "[shop_A1]" shop_B "[shop_A2]"]
  have h1: "''Z'' \<notin> shop_name ` set dup_mall"
    by (simp add: dup_mall_def shop_A1_def shop_B_def shop_A2_def)
  have h2: "shop_name shop_A1 \<notin> shop_name ` set []" by simp
  have h3: "dup_mall = [] @ shop_A1 # [shop_B, shop_A2]
      \<and> shop_name shop_A1 \<notin> shop_name ` set []
      \<and> dup_mall = [shop_A1] @ shop_B # [shop_A2]
      \<and> shop_name shop_B \<notin> shop_name ` set [shop_A1]"
    by (simp add: dup_mall_def shop_A1_def shop_B_def)
  have h4: "shop_name shop_A2 = shop_name shop_A1" by (simp add: shop_A1_def shop_A2_def)
  from t[THEN conjunct1] h1 have c1: "get_shop_coordinates dup_mall ''Z'' = None" by simp
  from t[THEN conjunct2, THEN conjunct1] h1
  have c2: "calculate_walking_time dup_mall ''Z'' ''A'' = Inl ''Shop not found.''" by simp
  from t[THEN conjunct2, THEN conjunct2, THEN conjunct1] h2
  have "get_shop_coordinates ([] @ shop_A1 # [shop_B, shop_A2]) (shop_name shop_A1)
          = Some (shop_x shop_A1, shop_y shop_A1, shop_floor shop_A1)" by (rule mp)
  then have c3: "get_shop_coordinates dup_mall ''A'' = Some (1, 2, 0)"
    unfolding dup_mall_def by (simp add: shop_A1_def)
  from t[THEN conjunct2, THEN conjunct2, THEN conjunct2] h3
  have "calculate_walking_time dup_mall (shop_name shop_A1) (shop_name shop_B)
          = Inr (\<bar>shop_x shop_A1 - shop_x shop_B\<bar> + \<bar>shop_y shop_A1 - shop_y shop_B\<bar>
                 + (if shop_floor shop_A1 \<noteq> shop_floor shop_B then 30 else 0))" by (rule mp)
  then have c4: "calculate_walking_time dup_mall ''A'' ''B'' = Inr 34"
    by (simp add: shop_A1_def shop_B_def)
  from h1 h3 h4 c1 c2 c3 c4 show ?thesis by blast
qed

text \<open>
  Claim C10. Whenever \<open>two_opt\<close> returns an order, it has the length of the input order,
  the same entry at position 0 and the same entry at the last position (and \<open>two_opt\<close> does
  return an order on every valid input). Hence, on a non-empty list of shops, the tour
  returned by \<open>compute_efficient_path\<close> starts at the index that \<open>nearest_neighbor\<close> chose
  as its start, a shop whose tuple \<open>(floor, x, y)\<close> is least in the lexicographic order.
\<close>

theorem two_opt_keeps_first_and_last:
  "(two_opt order shops p max_passes = Some order' \<longrightarrow>
      length order' = length order \<and> order' ! 0 = order ! 0
      \<and> order' ! (length order - 1) = order ! (length order - 1))
   \<and> (valid_order order shops \<longrightarrow> (\<exists>order'. two_opt order shops p max_passes = Some order'))
   \<and> (shops \<noteq> [] \<longrightarrow>
        (\<exists>order total. compute_efficient_path shops p = Some (order, total)
           \<and> order \<noteq> []
           \<and> py_min (start_key_at shops) (py_range (length shops)) = Some (order ! 0)
           \<and> 0 \<le> order ! 0 \<and> order ! 0 < int (length shops)
           \<and> (\<forall>i<length shops.
                 start_key (shops ! nat (order ! 0)) \<le> start_key (shops ! i))))"
proof (intro conjI impI)
  assume "two_opt order shops p max_passes = Some order'"
  then have "same_ends order order'" by (rule two_opt_ends)
  then show "length order' = length order" "order' ! 0 = order ! 0"
    "order' ! (length order - 1) = order ! (length order - 1)"
    by (simp_all add: same_ends_def)
next
  assume "valid_order order shops"
  from two_opt_total[OF this, of p max_passes]
  show "\<exists>order'. two_opt order shops p max_passes = Some order'" by blast
next
  assume ne: "shops \<noteq> []"
  from compute_efficient_path_result[of shops p]
  obtain init order where nn: "nearest_neighbor shops p = Some init"
    and ms: "mset init = mset (py_range (length shops))"
    and r: "compute_efficient_path shops p = Some (order, tour_cost (idx_cost shops p) order)"
    and se: "same_ends init order" by blast
  from nearest_neighbor_result[of shops p] nn ne
  have st: "py_min (start_key_at shops) (py_range (length shops)) = Some (init ! 0)" by auto
  from se have len: "length order = length init" and first: "order ! 0 = init ! 0"
    by (simp_all add: same_ends_def)
  from perm_of_range(1)[OF ms] len ne have ne': "order \<noteq> []" by auto
  from start_is_least[OF st] first
  have "0 \<le> order ! 0 \<and> order ! 0 < int (length shops)
        \<and> (\<forall>i<length shops. start_key (shops ! nat (order ! 0)) \<le> start_key (shops ! i))"
    by simp
  with r ne' st first
  show "\<exists>order total. compute_efficient_path shops p = Some (order, total)
           \<and> order \<noteq> []
           \<and> py_min (start_key_at shops) (py_range (length shops)) = Some (order ! 0)
           \<and> 0 \<le> order ! 0 \<and> order ! 0 < int (length shops)
           \<and> (\<forall>i<length shops.
                 start_key (shops ! nat (order ! 0)) \<le> start_key (shops ! i))"
    by auto
qed

theorem two_opt_keeps_first_and_last_witness:
  "two_opt [0, 1, 2, 3, 4] line_mall 1 1 = Some [0, 3, 2, 1, 4]
   \<and> valid_order [0, 1, 2, 3, 4] line_mall \<and> line_mall \<noteq> []
   \<and> length [0, 3, 2, 1, 4 :: int] = length [0, 1, 2, 3, 4 :: int]
   \<and> [0, 3, 2, 1, 4 :: int] ! 0 = [0, 1, 2, 3, 4] ! 0
   \<and> [0, 3, 2, 1, 4 :: int] ! (length [0, 1, 2, 3, 4 :: int] - 1)
       = [0, 1, 2, 3, 4] ! (length [0, 1, 2, 3, 4 :: int] - 1)
   \<and> (\<exists>order total. compute_efficient_path line_mall 1 = Some (order, total)
         \<and> order \<noteq> [] \<and> 0 \<le> order ! 0 \<and> order ! 0 < int (length line_mall)
         \<and> (\<forall>i<length line_mall.
               start_key (line_mall ! nat (order ! 0)) \<le> start_key (line_mall ! i)))"
proof -
  have v: "valid_order [0, 1, 2, 3, 4] line_mall" and ne: "line_mall \<noteq> []"
    by (simp_all add: valid_order_def line_mall_def)
  from two_opt_keeps_first_and_last[of "[0, 1, 2, 3, 4]" line_mall 1 1 "[0, 3, 2, 1, 4]"]
    line_two_opt_first v ne
  show ?thesis by blast
qed

end
